theory Spec2Isabelle
  imports Main "HOL-Library.Char_ord"
begin

section \<open>Bytes and the Go library functions the parser calls\<close>

text \<open>
  A Go \<^verbatim>\<open>[]byte\<close> or \<^verbatim>\<open>string\<close> is a list of 8-bit characters. Lengths and offsets are
  natural numbers (a Go \<^verbatim>\<open>int\<close> that counts bytes of a slice in memory never wraps);
  the one place where the source subtracts, in the body state, is modelled on \<open>int\<close>.
\<close>

definition CR :: char where
  "CR = CHR 0x0D"

definition LF :: char where
  "LF = CHR 0x0A"

text \<open>\<^verbatim>\<open>bytes.HasPrefix\<close>, \<^verbatim>\<open>bytes.HasSuffix\<close>.\<close>

definition HasPrefix :: "string \<Rightarrow> string \<Rightarrow> bool" where
  "HasPrefix s p = (take (length p) s = p)"

definition HasSuffix :: "string \<Rightarrow> string \<Rightarrow> bool" where
  "HasSuffix s p = (length p \<le> length s \<and> drop (length s - length p) s = p)"

text \<open>
  \<^verbatim>\<open>bytes.Index(b, sep)\<close>: the offset of the first occurrence of \<open>sep\<close> in \<open>b\<close>;
  \<open>None\<close> stands for Go's \<open>-1\<close>.
\<close>

fun Index :: "string \<Rightarrow> string \<Rightarrow> nat option" where
  "Index [] sep = (if sep = [] then Some 0 else None)"
| "Index (c # cs) sep =
     (if HasPrefix (c # cs) sep then Some 0 else map_option Suc (Index cs sep))"

text \<open>
  \<^verbatim>\<open>bytes.Split(s, sep)\<close> for a separator of one byte, the only use the source makes of
  it (\<^verbatim>\<open>" "\<close> and \<^verbatim>\<open>"/"\<close>): the pieces between the separators, one more than there are
  separators.
\<close>

fun Split :: "string \<Rightarrow> char \<Rightarrow> string list" where
  "Split [] sep = [[]]"
| "Split (c # cs) sep =
     (if c = sep then [] # Split cs sep
      else (case Split cs sep of p # ps \<Rightarrow> (c # p) # ps | [] \<Rightarrow> [[c]]))"

text \<open>
  \<^verbatim>\<open>bytes.SplitN(s, sep, 2)\<close> for a separator of one byte: cut at the first separator,
  or the whole of \<open>s\<close> as the only piece when there is none.
\<close>

definition SplitN2 :: "string \<Rightarrow> char \<Rightarrow> string list" where
  "SplitN2 s sep =
     (case Index s [sep] of
        None \<Rightarrow> [s]
      | Some m \<Rightarrow> [take m s, drop (m + 1) s])"

text \<open>
  \<^verbatim>\<open>bytes.TrimSpace\<close> removes, at both ends, every code point for which
  \<^verbatim>\<open>unicode.IsSpace\<close> holds. These are the six ASCII bytes tab, LF, VT, FF, CR and space,
  and the code points U+0085, U+00A0, U+1680, U+2000 to U+200A, U+2028, U+2029, U+202F,
  U+205F and U+3000, which appear in a byte string in their UTF-8 encoding. A byte
  sequence that is not one of these encodings decodes to a rune that is not a space
  (an invalid sequence decodes to U+FFFD), so trimming is the removal of these
  encodings as prefixes, then as suffixes.
\<close>

definition spaceRunes :: "string list" where
  "spaceRunes =
     [[CHR 0x09], [CHR 0x0A], [CHR 0x0B], [CHR 0x0C], [CHR 0x0D], [CHR 0x20],
      [CHR 0xC2, CHR 0x85], [CHR 0xC2, CHR 0xA0],
      [CHR 0xE1, CHR 0x9A, CHR 0x80],
      [CHR 0xE2, CHR 0x80, CHR 0x80], [CHR 0xE2, CHR 0x80, CHR 0x81],
      [CHR 0xE2, CHR 0x80, CHR 0x82], [CHR 0xE2, CHR 0x80, CHR 0x83],
      [CHR 0xE2, CHR 0x80, CHR 0x84], [CHR 0xE2, CHR 0x80, CHR 0x85],
      [CHR 0xE2, CHR 0x80, CHR 0x86], [CHR 0xE2, CHR 0x80, CHR 0x87],
      [CHR 0xE2, CHR 0x80, CHR 0x88], [CHR 0xE2, CHR 0x80, CHR 0x89],
      [CHR 0xE2, CHR 0x80, CHR 0x8A],
      [CHR 0xE2, CHR 0x80, CHR 0xA8], [CHR 0xE2, CHR 0x80, CHR 0xA9],
      [CHR 0xE2, CHR 0x80, CHR 0xAF],
      [CHR 0xE2, CHR 0x81, CHR 0x9F],
      [CHR 0xE3, CHR 0x80, CHR 0x80]]"

text \<open>The number of bytes of the space rune that \<open>s\<close> starts with, 0 when there is none.\<close>

definition spaceWidth :: "string list \<Rightarrow> string \<Rightarrow> nat" where
  "spaceWidth runes s =
     (case find (HasPrefix s) runes of None \<Rightarrow> 0 | Some e \<Rightarrow> length e)"

lemma HasPrefix_length: "HasPrefix s p \<Longrightarrow> length p \<le> length s"
proof -
  assume "HasPrefix s p"
  then have "length (take (length p) s) = length p"
    by (simp only: HasPrefix_def)
  then show ?thesis by simp
qed

lemma spaceWidth_le: "spaceWidth runes s \<le> length s"
proof (cases "find (HasPrefix s) runes")
  case None
  then show ?thesis by (simp add: spaceWidth_def)
next
  case (Some e)
  then have "HasPrefix s e"
    by (auto simp: find_Some_iff)
  then have "length e \<le> length s"
    by (rule HasPrefix_length)
  with Some show ?thesis by (simp add: spaceWidth_def)
qed

function TrimLeftRunes :: "string list \<Rightarrow> string \<Rightarrow> string" where
  "TrimLeftRunes runes s =
     (if spaceWidth runes s = 0 then s
      else TrimLeftRunes runes (drop (spaceWidth runes s) s))"
  by pat_completeness auto
termination
proof (relation "measure (\<lambda>(runes, s). length s)")
  show "wf (measure (\<lambda>(runes :: string list, s :: string). length s))"
    by simp
next
  fix runes :: "string list" and s :: string
  assume "spaceWidth runes s \<noteq> 0"
  moreover have "spaceWidth runes s \<le> length s"
    by (rule spaceWidth_le)
  ultimately show "((runes, drop (spaceWidth runes s) s), (runes, s))
      \<in> measure (\<lambda>(runes, s). length s)"
    by simp
qed

definition TrimSpace :: "string \<Rightarrow> string" where
  "TrimSpace s =
     rev (TrimLeftRunes (map rev spaceRunes) (rev (TrimLeftRunes spaceRunes s)))"

text \<open>
  \<^verbatim>\<open>strings.ToLower\<close>. On a string of ASCII bytes it maps \<open>A\<close> to \<open>Z\<close> onto \<open>a\<close> to \<open>z\<close>
  and keeps every other byte. On a string with a byte of 128 or more it goes through
  Go's Unicode case tables, which are not part of this repository: that path is the
  parameter \<open>U\<close> of the model, and every function that folds a header name takes it.
\<close>

definition isASCII :: "string \<Rightarrow> bool" where
  "isASCII s = list_all (\<lambda>c. c < CHR 0x80) s"

definition lowerByte :: "char \<Rightarrow> char" where
  "lowerByte c = (if CHR ''A'' \<le> c \<and> c \<le> CHR ''Z'' then char_of (of_char c + (32::nat)) else c)"

definition ToLower :: "(string \<Rightarrow> string) \<Rightarrow> string \<Rightarrow> string" where
  "ToLower U s = (if isASCII s then map lowerByte s else U s)"

text \<open>
  \<^verbatim>\<open>strconv.Atoi\<close> on a platform whose \<^verbatim>\<open>int\<close> has 64 bits: an optional sign, then one
  or more decimal digits and nothing else, read in base 10; a value outside the range
  of \<^verbatim>\<open>int\<close> is an error. \<open>None\<close> stands for the error.
\<close>

definition isDigit :: "char \<Rightarrow> bool" where
  "isDigit c = (CHR ''0'' \<le> c \<and> c \<le> CHR ''9'')"

definition digitsValue :: "string \<Rightarrow> int" where
  "digitsValue ds = foldl (\<lambda>n ch. n * 10 + (of_char ch - 48)) 0 ds"

definition Atoi :: "string \<Rightarrow> int option" where
  "Atoi s =
     (case s of
        [] \<Rightarrow> None
      | s0 # rest \<Rightarrow>
          (let ds = (if s0 = CHR ''-'' \<or> s0 = CHR ''+'' then rest else s) in
           if ds = [] \<or> \<not> list_all isDigit ds then None
           else
             (let n = (if s0 = CHR ''-'' then - digitsValue ds else digitsValue ds) in
              if n < - (2 ^ 63) \<or> 2 ^ 63 - 1 < n then None else Some n)))"

section \<open>The header store (\<^verbatim>\<open>internal/headers/headers.go\<close>)\<close>

datatype error =
    ERROR_MALFORMED_REQUEST_LINE
  | ERROR_UNSUPPORTED_HTTP_VERSION
  | ERROR_REQUEST_IN_ERROR_STATE
  | MalformedHeaderLine
  | MalformedHeaderFieldName
  | MalformedHeaderName
  | EOF
  | ReadFailure nat

definition isTokenChar :: "char \<Rightarrow> bool" where
  "isTokenChar char =
     ((CHR ''a'' \<le> char \<and> char \<le> CHR ''z'') \<or>
      (CHR ''A'' \<le> char \<and> char \<le> CHR ''Z'') \<or>
      (CHR ''0'' \<le> char \<and> char \<le> CHR ''9'') \<or>
      char = CHR ''!'' \<or> char = CHR ''#'' \<or> char = CHR ''$'' \<or> char = CHR ''%'' \<or>
      char = CHR ''&'' \<or> char = CHR 0x27 \<or> char = CHR ''*'' \<or> char = CHR ''+'' \<or>
      char = CHR ''-'' \<or> char = CHR ''.'' \<or> char = CHR ''^'' \<or> char = CHR ''_'' \<or>
      char = CHR 0x60 \<or> char = CHR ''|'' \<or> char = CHR ''~'')"

definition isToken :: "string \<Rightarrow> bool" where
  "isToken str = list_all isTokenChar str"

definition rn :: string where
  "rn = [CR, LF]"

text \<open>
  \<^verbatim>\<open>parseHeader\<close> returns the field name and the trimmed field value, or an error:
  \<open>MalformedHeaderLine\<close> is the source's "malformed header line!" (no colon) and
  \<open>MalformedHeaderFieldName\<close> its "malformed header field name!" (a space before the
  colon).
\<close>

definition parseHeader :: "string \<Rightarrow> error + (string \<times> string)" where
  "parseHeader fieldLine =
     (let parts = SplitN2 fieldLine (CHR '':'') in
      if length parts \<noteq> 2 then Inl MalformedHeaderLine
      else
        (let fieldName = parts ! 0;
             fieldValue = TrimSpace (parts ! 1) in
         if HasSuffix fieldName '' '' then Inl MalformedHeaderFieldName
         else Inr (fieldName, fieldValue)))"

text \<open>
  \<^verbatim>\<open>Headers\<close> is a struct around one Go map from string to string. The methods mutate
  the map in place; the model returns the new map.
\<close>

type_synonym Headers = "string \<rightharpoonup> string"

definition NewHeaders :: Headers where
  "NewHeaders = Map.empty"

definition Get :: "(string \<Rightarrow> string) \<Rightarrow> Headers \<Rightarrow> string \<Rightarrow> string \<times> bool" where
  "Get U h name =
     (case h (ToLower U name) of
        Some str \<Rightarrow> (str, True)
      | None \<Rightarrow> ('''', False))"

definition Replace :: "(string \<Rightarrow> string) \<Rightarrow> Headers \<Rightarrow> string \<Rightarrow> string \<Rightarrow> Headers" where
  "Replace U h name val = h(ToLower U name \<mapsto> val)"

definition Set :: "(string \<Rightarrow> string) \<Rightarrow> Headers \<Rightarrow> string \<Rightarrow> string \<Rightarrow> Headers" where
  "Set U h name val =
     (let name = ToLower U name in
      case h name of
        Some v \<Rightarrow> h(name \<mapsto> v @ '','' @ val)
      | None \<Rightarrow> h(name \<mapsto> val))"

lemma Index_Some_bound: "Index b sep = Some i \<Longrightarrow> i + length sep \<le> length b"
proof (induction b arbitrary: i)
  case Nil
  then show ?case by (simp split: if_splits)
next
  case (Cons c cs)
  show ?case
  proof (cases "HasPrefix (c # cs) sep")
    case True
    then have "length sep \<le> length (c # cs)"
      by (rule HasPrefix_length)
    with True Cons.prems show ?thesis by simp
  next
    case False
    with Cons.prems obtain j where "Index cs sep = Some j" "i = Suc j"
      by auto
    with Cons.IH show ?thesis by simp
  qed
qed

text \<open>
  \<^verbatim>\<open>Headers.Parse\<close>: the loop over the lines of \<open>data\<close>, with the offset \<open>read\<close> of the
  source. The result is the store as the call leaves it, the count of bytes reported
  as consumed, the \<open>done\<close> flag and the error (\<open>None\<close> for Go's \<open>nil\<close>).
\<close>

function Parse_loop ::
  "(string \<Rightarrow> string) \<Rightarrow> Headers \<Rightarrow> string \<Rightarrow> nat \<Rightarrow> Headers \<times> nat \<times> bool \<times> error option" where
  "Parse_loop U h data read =
     (case Index (drop read data) rn of
        None \<Rightarrow> (h, read, False, None)
      | Some idx \<Rightarrow>
          if idx = 0 then (h, read + length rn, True, None)
          else
            (case parseHeader (take idx (drop read data)) of
               Inl err \<Rightarrow> (h, 0, False, Some err)
             | Inr (fieldName, fieldValue) \<Rightarrow>
                 if \<not> isToken fieldName then (h, 0, False, Some MalformedHeaderName)
                 else Parse_loop U (Set U h fieldName fieldValue) data (read + (idx + length rn))))"
  by pat_completeness auto
termination
proof (relation "measure (\<lambda>(U, h, data, read). length data - read)")
  show "wf (measure (\<lambda>(U, h, data, read). length data - read))"
    by simp
next
  fix U :: "string \<Rightarrow> string" and h :: Headers and data :: string and read idx :: nat
    and x2 :: "string \<times> string" and fieldName fieldValue :: string
  assume "Index (drop read data) rn = Some idx"
  then have "idx + length rn \<le> length (drop read data)"
    by (rule Index_Some_bound)
  then show "((U, Set U h fieldName fieldValue, data, read + (idx + length rn)), (U, h, data, read))
      \<in> measure (\<lambda>(U, h, data, read). length data - read)"
    by (simp add: rn_def)
qed

definition Parse ::
  "(string \<Rightarrow> string) \<Rightarrow> Headers \<Rightarrow> string \<Rightarrow> Headers \<times> nat \<times> bool \<times> error option" where
  "Parse U h data = Parse_loop U h data 0"

section \<open>The request parser (\<^verbatim>\<open>internal/request\<close>)\<close>

datatype parseState = StateInit | StateHeader | StateBody | StateDone | StateError

text \<open>
  The struct \<^verbatim>\<open>RequestLine\<close> has a field \<^verbatim>\<open>Body\<close> that no code writes; it is
  \<open>RequestLineBody\<close> here, since the field \<^verbatim>\<open>Body\<close> of \<^verbatim>\<open>Request\<close> has the name.
\<close>

record RequestLine =
  HttpVersion :: string
  RequestTarget :: string
  Method :: string
  RequestLineBody :: string

record Request =
  RequestLine :: RequestLine
  Headers :: Headers
  Body :: string
  state :: parseState

text \<open>
  The two panics that \<^verbatim>\<open>parse\<close> can raise: the explicit one of the body state, and the
  run-time panic of the slice expression \<^verbatim>\<open>currentRead[:remaining]\<close> when \<open>remaining\<close>
  is negative. (The \<^verbatim>\<open>default\<close> branch of the switch cannot be taken: \<open>parseState\<close>
  has the five values above.)
\<close>

datatype panic = ChunckedNotImplemented | SliceBoundsOutOfRange

definition getInt :: "(string \<Rightarrow> string) \<Rightarrow> Headers \<Rightarrow> string \<Rightarrow> int \<Rightarrow> int" where
  "getInt U headers name defaultValue =
     (case Get U headers name of
        (valueStr, exist) \<Rightarrow>
          if \<not> exist then defaultValue
          else (case Atoi valueStr of None \<Rightarrow> defaultValue | Some v \<Rightarrow> v))"

definition newRequest :: Request where
  "newRequest =
     \<lparr>RequestLine = \<lparr>HttpVersion = [], RequestTarget = [], Method = [], RequestLineBody = []\<rparr>,
      Headers = NewHeaders, Body = [], state = StateInit\<rparr>"

definition SEPARATOR :: string where
  "SEPARATOR = [CR, LF]"

text \<open>
  \<^verbatim>\<open>parseRequestLine\<close> has three kinds of return: \<open>(nil, 0, nil)\<close> when no CRLF is in
  \<open>b\<close> yet (\<open>Inr None\<close>), \<open>(nil, 0, err)\<close> (\<open>Inl err\<close>), and the request line with the
  count of bytes read.
\<close>

definition parseRequestLine :: "string \<Rightarrow> error + (RequestLine \<times> nat) option" where
  "parseRequestLine b =
     (case Index b SEPARATOR of
        None \<Rightarrow> Inr None
      | Some idx \<Rightarrow>
          (let line = take idx b;
               read = idx + length SEPARATOR;
               parts = Split line (CHR '' '') in
           if length parts \<noteq> 3 then Inl ERROR_MALFORMED_REQUEST_LINE
           else
             (let HttpParts = Split (parts ! 2) (CHR ''/'') in
              if length HttpParts \<noteq> 2 \<or> HttpParts ! 0 \<noteq> ''HTTP'' \<or> HttpParts ! 1 \<noteq> ''1.1''
              then Inl ERROR_MALFORMED_REQUEST_LINE
              else Inr (Some (\<lparr>HttpVersion = HttpParts ! 1, RequestTarget = parts ! 1,
                               Method = parts ! 0, RequestLineBody = []\<rparr>, read)))))"

definition hasBody :: "(string \<Rightarrow> string) \<Rightarrow> Request \<Rightarrow> bool" where
  "hasBody U r = (let length = getInt U (Headers r) ''content-length'' 0 in length > 0)"

text \<open>
  \<^verbatim>\<open>parse\<close> is the loop labelled \<^verbatim>\<open>outer\<close>, over the offset \<open>read\<close>. One pass
  through the loop body is \<open>parse_step\<close>: it ends the call with a return (the request
  as the call leaves it, the count and the error) or with a panic, or it goes to the
  next pass with a new request and offset.
\<close>

datatype iteration = Return "Request \<times> nat \<times> error option" | Panic panic | Next Request nat

definition parse_step :: "(string \<Rightarrow> string) \<Rightarrow> Request \<Rightarrow> string \<Rightarrow> nat \<Rightarrow> iteration" where
  "parse_step U r data read =
     (let currentRead = drop read data in
      if length currentRead = 0 then Return (r, read, None)
      else
        (case state r of
           StateError \<Rightarrow> Return (r, 0, Some ERROR_REQUEST_IN_ERROR_STATE)
         | StateInit \<Rightarrow>
             (case parseRequestLine currentRead of
                Inl err \<Rightarrow> Return (r\<lparr>state := StateError\<rparr>, 0, None)
              | Inr None \<Rightarrow> Return (r, read, None)
              | Inr (Some (rl, n)) \<Rightarrow>
                  if n = 0 then Return (r, read, None)
                  else Next (r\<lparr>RequestLine := rl, state := StateHeader\<rparr>) (read + n))
         | StateHeader \<Rightarrow>
             (case Parse U (Headers r) currentRead of
                (h, n, done, err) \<Rightarrow>
                  if err \<noteq> None then Return (r\<lparr>Headers := h\<rparr>, 0, err)
                  else if n = 0 then Return (r\<lparr>Headers := h\<rparr>, read, None)
                  else if done then
                    (if hasBody U (r\<lparr>Headers := h\<rparr>)
                     then Next (r\<lparr>Headers := h, state := StateBody\<rparr>) (read + n)
                     else Next (r\<lparr>Headers := h, state := StateDone\<rparr>) (read + n))
                  else Next (r\<lparr>Headers := h\<rparr>) (read + n))
         | StateBody \<Rightarrow>
             (let length = getInt U (Headers r) ''content-length'' 0 in
              if length = 0 then Panic ChunckedNotImplemented
              else
                (let remaining = min (length - int (List.length (Body r)))
                                     (int (List.length currentRead)) in
                 if remaining < 0 then Panic SliceBoundsOutOfRange
                 else
                   (let body = Body r @ take (nat remaining) currentRead in
                    if int (List.length body) = length
                    then Next (r\<lparr>Body := body, state := StateDone\<rparr>) (read + nat remaining)
                    else Next (r\<lparr>Body := body\<rparr>) (read + nat remaining))))
         | StateDone \<Rightarrow> Return (r, read, None)))"

text \<open>Every pass that goes on has moved the offset forward or has left the body state.\<close>

definition parse_measure :: "Request \<Rightarrow> string \<Rightarrow> nat \<Rightarrow> nat" where
  "parse_measure r data read =
     2 * (length data - read) + (if state r = StateBody then 1 else 0)"

lemma parse_step_decreases:
  assumes "parse_step U r data read = Next r' read'"
  shows "parse_measure r' data read' < parse_measure r data read"
proof -
  from assms have more: "read < length data"
    by (auto simp: parse_step_def Let_def split: if_splits)
  show ?thesis
  proof (cases "state r")
    case StateInit
    with assms more show ?thesis
      by (auto simp: parse_step_def parse_measure_def Let_def
          split: if_splits sum.splits option.splits prod.splits)
  next
    case StateHeader
    with assms more show ?thesis
      by (auto simp: parse_step_def parse_measure_def Let_def split: if_splits prod.splits)
  next
    case StateBody
    with assms more show ?thesis
      by (auto simp: parse_step_def parse_measure_def Let_def min_def split: if_splits)
  next
    case StateDone
    with assms show ?thesis
      by (simp add: parse_step_def Let_def split: if_splits)
  next
    case StateError
    with assms show ?thesis
      by (simp add: parse_step_def Let_def split: if_splits)
  qed
qed

function parse_loop ::
  "(string \<Rightarrow> string) \<Rightarrow> Request \<Rightarrow> string \<Rightarrow> nat \<Rightarrow> panic + (Request \<times> nat \<times> error option)" where
  "parse_loop U r data read =
     (case parse_step U r data read of
        Return res \<Rightarrow> Inr res
      | Panic p \<Rightarrow> Inl p
      | Next r' read' \<Rightarrow> parse_loop U r' data read')"
  by pat_completeness auto
termination
proof (relation "measure (\<lambda>(U, r, data, read). parse_measure r data read)")
  show "wf (measure (\<lambda>(U :: string \<Rightarrow> string, r, data, read). parse_measure r data read))"
    by simp
next
  fix U :: "string \<Rightarrow> string" and r r' :: Request and data :: string and read read' :: nat
  assume "parse_step U r data read = Next r' read'"
  then have "parse_measure r' data read' < parse_measure r data read"
    by (rule parse_step_decreases)
  then show "((U, r', data, read'), (U, r, data, read))
      \<in> measure (\<lambda>(U, r, data, read). parse_measure r data read)"
    by simp
qed

definition parse ::
  "(string \<Rightarrow> string) \<Rightarrow> Request \<Rightarrow> string \<Rightarrow> panic + (Request \<times> nat \<times> error option)" where
  "parse U r data = parse_loop U r data 0"

text \<open>\<^verbatim>\<open>done\<close> (a keyword of Isabelle, hence the longer name).\<close>

definition request_done :: "Request \<Rightarrow> bool" where
  "request_done r = (state r = StateDone \<or> state r = StateError)"

subsection \<open>The stream and \<^verbatim>\<open>RequestFromReader\<close>\<close>

text \<open>
  An \<^verbatim>\<open>io.Reader\<close> is modelled by what it will deliver: a list of events, each a
  fragment of bytes or a read error; after the last event the stream is at its end and
  \<^verbatim>\<open>Read\<close> returns \<^verbatim>\<open>io.EOF\<close>. \<open>Read reader cap\<close> is one call of \<^verbatim>\<open>reader.Read(p)\<close> with
  \<open>len(p) = cap\<close>: it returns at most \<open>cap\<close> bytes of the next fragment and keeps the
  rest of the fragment for the next call.
\<close>

datatype event = Data string | Fail error

type_synonym Reader = "event list"

fun Read :: "Reader \<Rightarrow> nat \<Rightarrow> string \<times> error option \<times> Reader" where
  "Read [] cap = ([], Some EOF, [])"
| "Read (Fail err # rest) cap = ([], Some err, rest)"
| "Read (Data bs # rest) cap =
     (if length bs \<le> cap then (bs, None, rest)
      else (take cap bs, None, Data (drop cap bs) # rest))"

text \<open>
  What a caller of the parser gets: a value, an error (Go's \<open>(nil, err)\<close>), or a panic.
\<close>

datatype 'a result = Ok 'a | Failed error | Panicked panic

text \<open>
  \<^verbatim>\<open>RequestFromReader\<close>. The buffer \<open>buf[:bufLen]\<close> of the source is the list \<open>buf\<close>;
  its capacity is 1024 bytes. The loop need not end (a reader may return 0 bytes for
  ever, which a full buffer forces), so the model counts the calls of \<^verbatim>\<open>Read\<close> it may
  still make: \<open>None\<close> says that \<open>fuel\<close> calls were not enough.
\<close>

fun RequestFromReader_loop ::
  "nat \<Rightarrow> (string \<Rightarrow> string) \<Rightarrow> Request \<Rightarrow> string \<Rightarrow> Reader \<Rightarrow> Request result option" where
  "RequestFromReader_loop 0 U request buf reader =
     (if request_done request then Some (Ok request) else None)"
| "RequestFromReader_loop (Suc fuel) U request buf reader =
     (if request_done request then Some (Ok request)
      else
        (case Read reader (1024 - length buf) of
           (chunk, Some err, reader') \<Rightarrow> Some (Failed err)
         | (chunk, None, reader') \<Rightarrow>
             (case parse U request (buf @ chunk) of
                Inl p \<Rightarrow> Some (Panicked p)
              | Inr (request', readN, Some err) \<Rightarrow> Some (Failed err)
              | Inr (request', readN, None) \<Rightarrow>
                  RequestFromReader_loop fuel U request' (drop readN (buf @ chunk)) reader')))"

definition RequestFromReader ::
  "nat \<Rightarrow> (string \<Rightarrow> string) \<Rightarrow> Reader \<Rightarrow> Request result option" where
  "RequestFromReader fuel U reader = RequestFromReader_loop fuel U newRequest [] reader"

text \<open>
  The driving discipline on its own, as the body of the loop of \<^verbatim>\<open>RequestFromReader\<close>
  has it: append the new fragment to the bytes not yet consumed, call \<^verbatim>\<open>parse\<close> on
  all of them, keep what it did not consume. \<open>feed\<close> does this for a list of
  fragments, without the bound on the buffer and without stopping at \<^verbatim>\<open>done\<close>.
\<close>

fun feed ::
  "(string \<Rightarrow> string) \<Rightarrow> Request \<Rightarrow> string \<Rightarrow> string list \<Rightarrow> (Request \<times> string) result" where
  "feed U request buf [] = Ok (request, buf)"
| "feed U request buf (fragment # fragments) =
     (case parse U request (buf @ fragment) of
        Inl p \<Rightarrow> Panicked p
      | Inr (request', readN, Some err) \<Rightarrow> Failed err
      | Inr (request', readN, None) \<Rightarrow>
          feed U request' (drop readN (buf @ fragment)) fragments)"

section \<open>Running the model on concrete inputs\<close>

text \<open>
  The loops are unfolded on demand only. On a character given by its bits, \<open>lowerByte\<close>
  sets the bit of value 32 of an upper-case letter; with this equation and the
  definitions below the simplifier runs the parser on a literal input.
\<close>

declare TrimLeftRunes.simps [simp del] Parse_loop.simps [simp del] parse_loop.simps [simp del]

lemma lowerByte_Char:
  "lowerByte (Char b0 b1 b2 b3 b4 b5 b6 b7) =
     (if CHR ''A'' \<le> Char b0 b1 b2 b3 b4 b5 b6 b7 \<and> Char b0 b1 b2 b3 b4 b5 b6 b7 \<le> CHR ''Z''
      then Char b0 b1 b2 b3 b4 True b6 b7 else Char b0 b1 b2 b3 b4 b5 b6 b7)"
  by (cases b0; cases b1; cases b2; cases b3; cases b4; cases b5; cases b6; cases b7;
      simp add: lowerByte_def char_of_def bit_Suc_0_iff)

lemmas run_bytes =
  CR_def LF_def HasPrefix_def HasSuffix_def SplitN2_def TrimLeftRunes.simps TrimSpace_def
  spaceWidth_def spaceRunes_def isASCII_def lowerByte_Char ToLower_def isDigit_def
  digitsValue_def Atoi_def Let_def

lemmas run_headers =
  isToken_def isTokenChar_def rn_def parseHeader_def NewHeaders_def Get_def Set_def
  Parse_loop.simps Parse_def

lemmas run_request =
  getInt_def newRequest_def SEPARATOR_def parseRequestLine_def hasBody_def parse_step_def
  parse_loop.simps parse_def request_done_def RequestFromReader_def

section \<open>Properties of the byte functions\<close>

lemma HasPrefix_append:
  "length p \<le> length s \<Longrightarrow> HasPrefix (s @ t) p = HasPrefix s p"
  by (simp add: HasPrefix_def)

lemma Index_append:
  "Index x sep = Some i \<Longrightarrow> Index (x @ y) sep = Some i"
proof (induction x arbitrary: i)
  case Nil
  then show ?case by (cases y) (simp_all add: HasPrefix_def split: if_splits)
next
  case (Cons c cs)
  from Cons.prems have "i + length sep \<le> length (c # cs)"
    by (rule Index_Some_bound)
  then have len: "length sep \<le> length (c # cs)" by simp
  show ?case
  proof (cases "HasPrefix (c # cs) sep")
    case True
    with len have "HasPrefix ((c # cs) @ y) sep"
      by (simp only: HasPrefix_append)
    with True Cons.prems show ?thesis by simp
  next
    case False
    with len have "\<not> HasPrefix ((c # cs) @ y) sep"
      by (simp only: HasPrefix_append) simp
    moreover from False Cons.prems obtain j where j: "Index cs sep = Some j" "i = Suc j"
      by auto
    ultimately show ?thesis using Cons.IH [OF j(1)] by simp
  qed
qed

lemma Index_Some_occurs:
  "Index b sep = Some i \<Longrightarrow> take (length sep) (drop i b) = sep"
proof (induction b arbitrary: i)
  case Nil
  then show ?case by (simp split: if_splits)
next
  case (Cons c cs)
  then show ?case
    by (auto simp: HasPrefix_def split: if_splits)
qed

lemma Index_Some_first:
  "Index b sep = Some i \<Longrightarrow> j < i \<Longrightarrow> take (length sep) (drop j b) \<noteq> sep"
proof (induction b arbitrary: i j)
  case Nil
  then show ?case by (simp split: if_splits)
next
  case (Cons c cs)
  show ?case
  proof (cases "HasPrefix (c # cs) sep")
    case True
    with Cons.prems show ?thesis by simp
  next
    case False
    with Cons.prems obtain k where k: "Index cs sep = Some k" "i = Suc k"
      by auto
    show ?thesis
    proof (cases j)
      case 0
      with False show ?thesis by (simp add: HasPrefix_def)
    next
      case (Suc j')
      with k Cons.prems have "j' < k" by simp
      with Cons.IH [OF k(1)] Suc show ?thesis by simp
    qed
  qed
qed

lemma Index_None_no_occurrence:
  "Index b sep = None \<Longrightarrow> j \<le> length b \<Longrightarrow> take (length sep) (drop j b) \<noteq> sep"
proof (induction b arbitrary: j)
  case Nil
  then show ?case by (simp split: if_splits)
next
  case (Cons c cs)
  from Cons.prems have np: "\<not> HasPrefix (c # cs) sep" and rest: "Index cs sep = None"
    by (auto split: if_splits)
  show ?case
  proof (cases j)
    case 0
    with np show ?thesis by (simp add: HasPrefix_def)
  next
    case (Suc j')
    with Cons.prems Cons.IH [OF rest, of j'] show ?thesis by simp
  qed
qed

section \<open>Properties of \<^verbatim>\<open>Headers.Parse\<close>\<close>

text \<open>
  What the loop of \<^verbatim>\<open>Headers.Parse\<close> finds at the front of the bytes it has not read yet:
  no complete line, the blank line, a line it rejects, or a field line (with the offset
  of its CRLF, its name and its value). This is a device of the proofs; the loop, in
  terms of it, is \<open>Parse_loop_line\<close> below.
\<close>

datatype line = NoLine | Blank | Bad error | Field nat string string

definition nextLine :: "string \<Rightarrow> line" where
  "nextLine rest =
     (case Index rest rn of
        None \<Rightarrow> NoLine
      | Some idx \<Rightarrow>
          if idx = 0 then Blank
          else
            (case parseHeader (take idx rest) of
               Inl err \<Rightarrow> Bad err
             | Inr (fieldName, fieldValue) \<Rightarrow>
                 if \<not> isToken fieldName then Bad MalformedHeaderName
                 else Field idx fieldName fieldValue))"

lemma Parse_loop_line:
  "Parse_loop U h data read =
     (case nextLine (drop read data) of
        NoLine \<Rightarrow> (h, read, False, None)
      | Blank \<Rightarrow> (h, read + 2, True, None)
      | Bad err \<Rightarrow> (h, 0, False, Some err)
      | Field idx fieldName fieldValue \<Rightarrow>
          Parse_loop U (Set U h fieldName fieldValue) data (read + (idx + 2)))"
  by (subst Parse_loop.simps)
    (simp add: nextLine_def rn_def split: option.splits sum.splits prod.splits)

lemma nextLine_Field_bound:
  "nextLine rest = Field idx name val \<Longrightarrow> 0 < idx \<and> idx + 2 \<le> length rest"
  by (auto simp: nextLine_def rn_def split: option.splits if_splits sum.splits prod.splits
      dest: Index_Some_bound)


lemma Index_rn_occurs: "Index rest rn = Some idx \<Longrightarrow> take 2 (drop idx rest) = [CR, LF]"
proof -
  assume "Index rest rn = Some idx"
  then have "take (length rn) (drop idx rest) = rn"
    by (rule Index_Some_occurs)
  then show ?thesis
    by (simp add: rn_def numeral_2_eq_2)
qed



lemma nextLine_append:
  "nextLine x \<noteq> NoLine \<Longrightarrow> nextLine (x @ y) = nextLine x"
proof -
  assume a: "nextLine x \<noteq> NoLine"
  then obtain idx where idx: "Index x rn = Some idx"
    by (auto simp: nextLine_def split: option.splits)
  then have "Index (x @ y) rn = Some idx"
    by (rule Index_append)
  moreover from idx have "idx \<le> length x"
    by (auto dest: Index_Some_bound)
  ultimately show ?thesis using idx
    by (simp add: nextLine_def)
qed

text \<open>Induction over the lines that \<^verbatim>\<open>Headers.Parse\<close> consumes.\<close>

lemma Parse_loop_induct [consumes 0, case_names Line]:
  assumes "\<And>h read.
     (\<And>idx name val. nextLine (drop read data) = Field idx name val \<Longrightarrow>
        P (Set U h name val) (read + (idx + 2))) \<Longrightarrow> P h read"
  shows "P h read"
proof (induction "length data - read" arbitrary: h read rule: less_induct)
  case less
  show ?case
  proof (rule assms)
    fix idx name val
    assume f: "nextLine (drop read data) = Field idx name val"
    then have "0 < idx \<and> idx + 2 \<le> length (drop read data)"
      by (rule nextLine_Field_bound)
    then have "length data - (read + (idx + 2)) < length data - read"
      by (simp only: length_drop) linarith
    then show "P (Set U h name val) (read + (idx + 2))"
      by (rule less)
  qed
qed

lemma nextLine_Nil [simp]: "nextLine [] = NoLine"
  by (simp add: nextLine_def rn_def)

lemma Parse_loop_shift:
  assumes "k \<le> read"
  shows "Parse_loop U h data read =
     (case Parse_loop U h (drop k data) (read - k) of
        (h', n, d, e) \<Rightarrow> (h', if e = None then n + k else n, d, e))"
  using assms
proof (induction h read rule: Parse_loop_induct [where data = data and U = U])
  case (Line h read)
  have same: "drop (read - k) (drop k data) = drop read data"
    using Line.prems by simp
  show ?case
  proof (cases "nextLine (drop read data)")
    case (Field idx name val)
    have "k \<le> read + (idx + 2)"
      using Line.prems by simp
    from Line.IH [OF Field this]
    have "Parse_loop U (Set U h name val) data (read + (idx + 2)) =
       (case Parse_loop U (Set U h name val) (drop k data) (read + (idx + 2) - k) of
          (h', n, d, e) \<Rightarrow> (h', if e = None then n + k else n, d, e))" .
    moreover have "read + (idx + 2) - k = read - k + (idx + 2)"
      using Line.prems by simp
    ultimately show ?thesis
      using Field same
      by (simp only: Parse_loop_line [of U h data read]
          Parse_loop_line [of U h "drop k data" "read - k"] line.case)
  qed (use same Line.prems in \<open>simp_all add: Parse_loop_line [of U h data read]
          Parse_loop_line [of U h "drop k data" "read - k"]\<close>)
qed

lemma Parse_loop_error:
  "Parse_loop U h data read = (h', n, d, Some e) \<Longrightarrow> n = 0 \<and> \<not> d"
proof (induction h read rule: Parse_loop_induct [where data = data and U = U])
  case (Line h read)
  then show ?case
    by (cases "nextLine (drop read data)") (simp_all add: Parse_loop_line [of U h data read])
qed




lemma Parse_loop_append:
  assumes "read \<le> length x"
  shows "Parse_loop U h (x @ y) read =
     (case Parse_loop U h x read of
        (h1, n1, False, None) \<Rightarrow> Parse_loop U h1 (x @ y) n1
      | res \<Rightarrow> res)"
  using assms
proof (induction h read rule: Parse_loop_induct [where data = x and U = U])
  case (Line h read)
  have dr: "drop read (x @ y) = drop read x @ y"
    using Line.prems by simp
  show ?case
  proof (cases "nextLine (drop read x)")
    case NoLine
    then show ?thesis by (simp add: Parse_loop_line [of U h x read])
  next
    case Blank
    then have "nextLine (drop read x @ y) = Blank"
      by (simp add: nextLine_append)
    with Blank dr show ?thesis
      by (simp add: Parse_loop_line [of U h x read] Parse_loop_line [of U h "x @ y" read])
  next
    case (Bad e)
    then have "nextLine (drop read x @ y) = Bad e"
      by (simp add: nextLine_append)
    with Bad dr show ?thesis
      by (simp add: Parse_loop_line [of U h x read] Parse_loop_line [of U h "x @ y" read])
  next
    case (Field idx name val)
    then have ext: "nextLine (drop read x @ y) = Field idx name val"
      by (simp add: nextLine_append)
    from Field have "0 < idx \<and> idx + 2 \<le> length (drop read x)" by (rule nextLine_Field_bound)
    then have le: "read + (idx + 2) \<le> length x"
      by (simp only: length_drop) linarith
    from Line.IH [OF Field le] Field ext dr show ?thesis
      by (simp add: Parse_loop_line [of U h x read] Parse_loop_line [of U h "x @ y" read])
  qed
qed

section \<open>Properties of the request parser\<close>

lemma parseRequestLine_None: "parseRequestLine b = Inr None \<longleftrightarrow> Index b SEPARATOR = None"
  by (simp add: parseRequestLine_def Let_def split: option.splits)

lemma parseRequestLine_append:
  assumes "parseRequestLine x \<noteq> Inr None"
  shows "parseRequestLine (x @ y) = parseRequestLine x"
proof -
  from assms obtain idx where idx: "Index x SEPARATOR = Some idx"
    by (auto simp: parseRequestLine_None)
  then have "Index (x @ y) SEPARATOR = Some idx"
    by (rule Index_append)
  moreover from idx have "idx \<le> length x"
    by (auto dest: Index_Some_bound)
  ultimately show ?thesis using idx
    by (simp add: parseRequestLine_def)
qed

lemma parseRequestLine_Some:
  assumes "parseRequestLine b = Inr (Some (rl, n))"
  shows "2 \<le> n \<and> n \<le> length b \<and> take 2 (drop (n - 2) b) = [CR, LF] \<and> HttpVersion rl = ''1.1''"
proof -
  from assms obtain idx where idx: "Index b SEPARATOR = Some idx"
    by (cases "Index b SEPARATOR") (simp_all add: parseRequestLine_def)
  with assms have n: "n = idx + 2" and v: "HttpVersion rl = ''1.1''"
    by (auto simp: parseRequestLine_def SEPARATOR_def Let_def split: if_splits)
  from idx have "idx + length SEPARATOR \<le> length b"
    by (rule Index_Some_bound)
  moreover from idx have "take 2 (drop idx b) = [CR, LF]"
    by (simp add: SEPARATOR_def rn_def [symmetric] Index_rn_occurs)
  ultimately show ?thesis using n v
    by (simp add: SEPARATOR_def)
qed

subsection \<open>One pass of the loop of \<^verbatim>\<open>parse\<close>, state by state\<close>

lemma parse_step_empty:
  "length data \<le> read \<Longrightarrow> parse_step U r data read = Return (r, read, None)"
  by (simp add: parse_step_def Let_def)

lemma parse_step_Error:
  "read < length data \<Longrightarrow> state r = StateError \<Longrightarrow>
     parse_step U r data read = Return (r, 0, Some ERROR_REQUEST_IN_ERROR_STATE)"
  by (simp add: parse_step_def Let_def)

lemma parse_step_Done:
  "state r = StateDone \<Longrightarrow> parse_step U r data read = Return (r, read, None)"
  by (simp add: parse_step_def Let_def)

lemma parse_step_Init:
  assumes "read < length data" and "state r = StateInit"
  shows "parse_step U r data read =
     (case parseRequestLine (drop read data) of
        Inl err \<Rightarrow> Return (r\<lparr>state := StateError\<rparr>, 0, None)
      | Inr None \<Rightarrow> Return (r, read, None)
      | Inr (Some (rl, n)) \<Rightarrow> Next (r\<lparr>RequestLine := rl, state := StateHeader\<rparr>) (read + n))"
proof (cases "parseRequestLine (drop read data)")
  case (Inl err)
  with assms show ?thesis by (simp add: parse_step_def Let_def)
next
  case (Inr found)
  show ?thesis
  proof (cases found)
    case None
    with Inr assms show ?thesis by (simp add: parse_step_def Let_def)
  next
    case (Some p)
    obtain rl n where p: "p = (rl, n)" by (cases p)
    with Inr Some have "2 \<le> n"
      using parseRequestLine_Some [of "drop read data" rl n] by simp
    with Inr Some p assms show ?thesis by (simp add: parse_step_def Let_def)
  qed
qed

lemma parse_step_Header:
  assumes "read < length data" and "state r = StateHeader"
  shows "parse_step U r data read =
     (case Parse U (Headers r) (drop read data) of
        (h, n, done, err) \<Rightarrow>
          if err \<noteq> None then Return (r\<lparr>Headers := h\<rparr>, 0, err)
          else if n = 0 then Return (r\<lparr>Headers := h\<rparr>, read, None)
          else if done then
            Next (r\<lparr>Headers := h,
                    state := (if 0 < getInt U h ''content-length'' 0 then StateBody else StateDone)\<rparr>)
              (read + n)
          else Next (r\<lparr>Headers := h\<rparr>) (read + n))"
  using assms by (simp add: parse_step_def hasBody_def Let_def split: prod.splits)

text \<open>In the body state: \<open>len\<close> is the content length the pass reads again from the store.\<close>

lemma parse_step_Body:
  assumes "read < length data" and "state r = StateBody"
  shows "parse_step U r data read =
     (let len = getInt U (Headers r) ''content-length'' 0;
          remaining = min (len - int (length (Body r))) (int (length (drop read data)));
          body = Body r @ take (nat remaining) (drop read data) in
      if len = 0 then Panic ChunckedNotImplemented
      else if remaining < 0 then Panic SliceBoundsOutOfRange
      else Next (r\<lparr>Body := body,
                   state := (if int (length body) = len then StateDone else StateBody)\<rparr>)
             (read + nat remaining))"
proof -
  have "r\<lparr>Body := b, state := StateBody\<rparr> = r\<lparr>Body := b\<rparr>" for b
    using assms(2) by simp
  with assms show ?thesis
    unfolding parse_step_def Let_def
    by (simp del: length_drop length_append) (simp add: min_def)
qed

lemma parse_step_Next_state:
  assumes "parse_step U r data read = Next r' read'"
  shows "state r' \<noteq> StateError \<and> state r' \<noteq> StateInit \<and> read < length data"
proof -
  have more: "read < length data"
    using assms by (cases "read < length data") (simp_all add: parse_step_empty)
  show ?thesis
  proof (cases "state r")
    case StateInit
    with assms more show ?thesis
      by (auto simp: parse_step_Init split: sum.splits option.splits)
  next
    case StateHeader
    with assms more show ?thesis
      by (auto simp: parse_step_Header split: prod.splits if_splits)
  next
    case StateBody
    with assms more show ?thesis
      by (auto simp: parse_step_Body Let_def split: if_splits)
  next
    case StateDone
    with assms show ?thesis by (simp add: parse_step_Done)
  next
    case StateError
    with assms more show ?thesis by (simp add: parse_step_Error)
  qed
qed

text \<open>
  The offset only says where the unread bytes start: a pass over \<open>data\<close> from \<open>read\<close> is
  the pass over \<open>data\<close> without its first \<open>k\<close> bytes from \<open>read - k\<close>, with the counts
  moved by \<open>k\<close>. (A return with an error, or into the state \<open>Error\<close>, reports the count 0
  wherever it happens.)
\<close>

definition moved :: "nat \<Rightarrow> Request \<times> nat \<times> error option \<Rightarrow> Request \<times> nat \<times> error option" where
  "moved k res =
     (case res of (r, n, e) \<Rightarrow> (r, if e = None \<and> state r \<noteq> StateError then n + k else n, e))"

lemma moved_simps [simp]:
  "moved k (r, n, Some e) = (r, n, Some e)"
  "state r = StateError \<Longrightarrow> moved k (r, n, e') = (r, n, e')"
  "state r \<noteq> StateError \<Longrightarrow> moved k (r, n, None) = (r, n + k, None)"
  by (simp_all add: moved_def)

lemma parse_step_shift:
  assumes "k \<le> read" and "state r \<noteq> StateError"
  shows "parse_step U r data read =
     (case parse_step U r (drop k data) (read - k) of
        Return res \<Rightarrow> Return (moved k res)
      | Panic p \<Rightarrow> Panic p
      | Next r' read' \<Rightarrow> Next r' (read' + k))"
proof (cases "read < length data")
  case False
  with assms show ?thesis
    by (simp add: parse_step_empty)
next
  case True
  with assms have more: "read - k < length (drop k data)"
    by simp
  have same: "drop (read - k) (drop k data) = drop read data"
    using assms by simp
  show ?thesis
  proof (cases "state r")
    case StateInit
    with True more same assms show ?thesis
      by (simp add: parse_step_Init split: sum.splits option.splits)
  next
    case StateHeader
    obtain h n d e where p: "Parse U (Headers r) (drop read data) = (h, n, d, e)"
      by (cases "Parse U (Headers r) (drop read data)") auto
    show ?thesis
    proof (cases e)
      case None
      with p StateHeader True more same assms show ?thesis
        by (simp add: parse_step_Header)
    next
      case (Some err)
      with p StateHeader True more same assms show ?thesis
        by (simp add: parse_step_Header)
    qed
  next
    case StateBody
    with True more same assms show ?thesis
      by (simp add: parse_step_Body Let_def del: length_drop) (simp add: min_def)
  next
    case StateDone
    with assms show ?thesis by (simp add: parse_step_Done)
  next
    case StateError
    with assms show ?thesis by simp
  qed
qed

lemma parse_loop_shift:
  assumes "k \<le> read" and "state r \<noteq> StateError"
  shows "parse_loop U r data read =
     (case parse_loop U r (drop k data) (read - k) of
        Inl p \<Rightarrow> Inl p
      | Inr res \<Rightarrow> Inr (moved k res))"
  using assms
proof (induction U r data read rule: parse_loop.induct)
  case (1 U r data read)
  note step = parse_step_shift [OF "1.prems", of U data]
  show ?case
  proof (cases "parse_step U r (drop k data) (read - k)")
    case (Return res)
    with step show ?thesis
      by (simp add: parse_loop.simps [of U r data read]
          parse_loop.simps [of U r "drop k data" "read - k"])
  next
    case (Panic p)
    with step show ?thesis
      by (simp add: parse_loop.simps [of U r data read]
          parse_loop.simps [of U r "drop k data" "read - k"])
  next
    case (Next r' read')
    with step have n: "parse_step U r data read = Next r' (read' + k)"
      by simp
    then have "state r' \<noteq> StateError"
      by (simp add: parse_step_Next_state)
    with "1.IH" [OF n] have "parse_loop U r' data (read' + k) =
       (case parse_loop U r' (drop k data) (read' + k - k) of
          Inl p \<Rightarrow> Inl p
        | Inr res \<Rightarrow> Inr (moved k res))"
      by simp
    with n Next show ?thesis
      by (simp add: parse_loop.simps [of U r data read]
          parse_loop.simps [of U r "drop k data" "read - k"])
  qed
qed

subsection \<open>What holds of a request in each state\<close>

text \<open>
  The facts that every pass of the loop keeps: the body is empty until the body state is
  entered; from the header state on, the stored version is \<open>1.1\<close>; in the body state
  the content length that \<^verbatim>\<open>getInt\<close> reads from the store exceeds the length of the body
  accumulated so far (so it is positive).
\<close>

definition contentLength :: "(string \<Rightarrow> string) \<Rightarrow> Request \<Rightarrow> int" where
  "contentLength U r = getInt U (Headers r) ''content-length'' 0"

fun sound :: "(string \<Rightarrow> string) \<Rightarrow> Request \<Rightarrow> bool" where
  "sound U r =
     (case state r of
        StateInit \<Rightarrow> Body r = []
      | StateHeader \<Rightarrow> Body r = [] \<and> HttpVersion (RequestLine r) = ''1.1''
      | StateBody \<Rightarrow> int (length (Body r)) < contentLength U r \<and> HttpVersion (RequestLine r) = ''1.1''
      | StateDone \<Rightarrow> HttpVersion (RequestLine r) = ''1.1''
      | StateError \<Rightarrow> True)"

declare sound.simps [simp del]

lemma sound_newRequest: "sound U newRequest"
  by (simp add: sound.simps newRequest_def)

lemma parse_step_sound:
  assumes "sound U r"
  shows "case parse_step U r data read of
           Return (r', n, e) \<Rightarrow> sound U r'
         | Panic p \<Rightarrow> False
         | Next r' read' \<Rightarrow> sound U r'"
proof (cases "read < length data")
  case False
  with assms show ?thesis by (simp add: parse_step_empty)
next
  case True
  show ?thesis
  proof (cases "state r")
    case StateInit
    show ?thesis
    proof (cases "parseRequestLine (drop read data)")
      case (Inl err)
      with StateInit True show ?thesis
        by (simp add: parse_step_Init sound.simps)
    next
      case (Inr found)
      show ?thesis
      proof (cases found)
        case None
        with Inr StateInit True assms show ?thesis
          by (simp add: parse_step_Init)
      next
        case (Some p)
        obtain rl n where p: "p = (rl, n)" by (cases p)
        with Inr Some have "HttpVersion rl = ''1.1''"
          using parseRequestLine_Some [of "drop read data" rl n] by simp
        with Inr Some p StateInit True assms show ?thesis
          by (simp add: parse_step_Init sound.simps)
      qed
    qed
  next
    case StateHeader
    obtain h n d e where p: "Parse U (Headers r) (drop read data) = (h, n, d, e)"
      by (cases "Parse U (Headers r) (drop read data)") auto
    with StateHeader True assms show ?thesis
      by (cases e) (simp_all add: parse_step_Header sound.simps contentLength_def)
  next
    case StateBody
    with True assms show ?thesis
      by (simp add: parse_step_Body Let_def sound.simps contentLength_def del: length_drop)
        (auto simp: min_def)
  next
    case StateDone
    with assms show ?thesis by (simp add: parse_step_Done)
  next
    case StateError
    with True assms show ?thesis by (simp add: parse_step_Error)
  qed
qed

lemma parse_loop_sound:
  assumes "sound U r"
  shows "\<exists>r' n e. parse_loop U r data read = Inr (r', n, e) \<and> sound U r'"
  using assms
proof (induction U r data read rule: parse_loop.induct)
  case (1 U r data read)
  from parse_step_sound [OF "1.prems", of data read] show ?case
  proof (cases "parse_step U r data read")
    case (Return res)
    with parse_step_sound [OF "1.prems", of data read] show ?thesis
      by (cases res) (simp add: parse_loop.simps [of U r data read])
  next
    case (Panic p)
    with parse_step_sound [OF "1.prems", of data read] show ?thesis by simp
  next
    case (Next r' read')
    with parse_step_sound [OF "1.prems", of data read] have "sound U r'" by simp
    from "1.IH" [OF Next this] Next show ?thesis
      by (simp add: parse_loop.simps [of U r data read])
  qed
qed

lemma parse_sound:
  "sound U r \<Longrightarrow> \<exists>r' n e. parse U r data = Inr (r', n, e) \<and> sound U r'"
  unfolding parse_def by (rule parse_loop_sound)

lemma feed_sound:
  "sound U r \<Longrightarrow> feed U r buf fragments \<noteq> Panicked p \<and>
     (feed U r buf fragments = Ok (r', buf') \<longrightarrow> sound U r')"
proof (induction fragments arbitrary: r buf)
  case Nil
  then show ?case by auto
next
  case (Cons f fs)
  from parse_sound [OF Cons.prems, of "buf @ f"]
  obtain r1 n e where p: "parse U r (buf @ f) = Inr (r1, n, e)" and s: "sound U r1"
    by blast
  show ?case
  proof (cases e)
    case None
    with p Cons.IH [OF s, of "drop n (buf @ f)"] show ?thesis by simp
  next
    case (Some err)
    with p show ?thesis by simp
  qed
qed

lemma RequestFromReader_loop_sound:
  "sound U r \<Longrightarrow> RequestFromReader_loop fuel U r buf reader \<noteq> Some (Panicked p) \<and>
     (RequestFromReader_loop fuel U r buf reader = Some (Ok r') \<longrightarrow> sound U r')"
proof (induction fuel arbitrary: r buf reader)
  case 0
  then show ?case by auto
next
  case (Suc fuel)
  show ?case
  proof (cases "request_done r")
    case True
    with Suc.prems show ?thesis by auto
  next
    case False
    obtain chunk err reader' where rd: "Read reader (1024 - length buf) = (chunk, err, reader')"
      by (cases "Read reader (1024 - length buf)") auto
    show ?thesis
    proof (cases err)
      case (Some e)
      with False rd show ?thesis by simp
    next
      case None
      from parse_sound [OF Suc.prems, of "buf @ chunk"]
      obtain r1 n e where p: "parse U r (buf @ chunk) = Inr (r1, n, e)" and s: "sound U r1"
        by blast
      show ?thesis
      proof (cases e)
        case None
        with p rd \<open>err = None\<close> False Suc.IH [OF s, of "drop n (buf @ chunk)" reader']
        show ?thesis by simp
      next
        case (Some e')
        with p rd \<open>err = None\<close> False show ?thesis by simp
      qed
    qed
  qed
qed





lemma parse_step_keeps_headers:
  assumes "state r = StateBody \<or> state r = StateDone"
  shows "case parse_step U r data read of
           Return (r', n, e) \<Rightarrow> Headers r' = Headers r \<and> (state r' = StateBody \<or> state r' = StateDone)
         | Panic p \<Rightarrow> True
         | Next r' read' \<Rightarrow> Headers r' = Headers r \<and> (state r' = StateBody \<or> state r' = StateDone)"
proof (cases "read < length data")
  case False
  with assms show ?thesis by (simp add: parse_step_empty)
next
  case True
  from assms show ?thesis
  proof
    assume "state r = StateBody"
    with True show ?thesis by (simp add: parse_step_Body Let_def del: length_drop)
  next
    assume "state r = StateDone"
    then show ?thesis by (simp add: parse_step_Done)
  qed
qed

lemma parse_loop_keeps_headers:
  assumes "state r = StateBody \<or> state r = StateDone"
    and "parse_loop U r data read = Inr (r', n, e)"
  shows "Headers r' = Headers r"
  using assms
proof (induction U r data read rule: parse_loop.induct)
  case (1 U r data read)
  note keep = parse_step_keeps_headers [OF "1.prems"(1), of U data read]
  show ?case
  proof (cases "parse_step U r data read")
    case (Return res)
    with keep "1.prems"(2) show ?thesis
      by (auto simp: parse_loop.simps [of U r data read])
  next
    case (Panic p)
    with "1.prems"(2) show ?thesis
      by (simp add: parse_loop.simps [of U r data read])
  next
    case (Next q read')
    with keep have q: "Headers q = Headers r" "state q = StateBody \<or> state q = StateDone"
      by simp_all
    from Next "1.prems"(2) have "parse_loop U q data read' = Inr (r', n, e)"
      by (simp add: parse_loop.simps [of U r data read])
    from "1.IH" [OF Next q(2) this] q(1) show ?thesis by simp
  qed
qed

lemma parse_step_enters_body:
  assumes "parse_step U r data read = Next r' read'"
    and "state r \<noteq> StateBody" and "state r' = StateBody"
  shows "state r = StateHeader \<and> 0 < getInt U (Headers r') ''content-length'' 0"
proof -
  have more: "read < length data"
    using assms(1) by (simp add: parse_step_Next_state)
  show ?thesis
  proof (cases "state r")
    case StateInit
    with assms more show ?thesis
      by (auto simp: parse_step_Init split: sum.splits option.splits)
  next
    case StateHeader
    obtain h n d e where "Parse U (Headers r) (drop read data) = (h, n, d, e)"
      by (cases "Parse U (Headers r) (drop read data)") auto
    with StateHeader assms more show ?thesis
      by (cases e) (auto simp: parse_step_Header split: if_splits)
  next
    case StateBody
    with assms show ?thesis by simp
  next
    case StateDone
    with assms show ?thesis by (simp add: parse_step_Done)
  next
    case StateError
    with assms more show ?thesis by (simp add: parse_step_Error)
  qed
qed



section \<open>Properties of the header store\<close>

lemma Get_Set_fresh:
  "ToLower U name = ToLower U name' \<Longrightarrow> h (ToLower U name) = None \<Longrightarrow>
     Get U (Set U h name a) name' = (a, True)"
  by (simp add: Get_def Set_def)

lemma Get_Set_present:
  "ToLower U name = ToLower U name' \<Longrightarrow> h (ToLower U name) = Some v \<Longrightarrow>
     Get U (Set U h name a) name' = (v @ '','' @ a, True)"
  by (simp add: Get_def Set_def)

lemma Set_lookup:
  "Set U h name a (ToLower U name) =
     Some (case h (ToLower U name) of None \<Rightarrow> a | Some v \<Rightarrow> v @ '','' @ a)"
  by (simp add: Set_def split: option.splits)

text \<open>
  Names of ASCII bytes that agree byte by byte up to the case of the letters \<open>A\<close> to \<open>Z\<close>
  have the same lower-case form.
\<close>

lemma ToLower_ASCII_case:
  assumes "isASCII name" and "isASCII name'"
    and "list_all2 (\<lambda>c d. lowerByte c = lowerByte d) name name'"
  shows "ToLower U name = ToLower U name'"
proof -
  from assms(3) have "map lowerByte name = map lowerByte name'"
    by (induction rule: list_all2_induct) simp_all
  with assms(1,2) show ?thesis
    by (simp add: ToLower_def)
qed

text \<open>
  A line as it stands in a buffer before its CRLF: not empty and with no CRLF inside.
  It is well formed when \<^verbatim>\<open>Headers.Parse\<close> accepts it (\<^verbatim>\<open>parseHeader\<close> succeeds and the name
  is a token) and malformed when \<^verbatim>\<open>Headers.Parse\<close> rejects it. \<open>storeLine\<close> is what an
  accepted line does to the store.
\<close>

definition wellFormedLine :: "string \<Rightarrow> bool" where
  "wellFormedLine l =
     (l \<noteq> [] \<and> Index l rn = None \<and>
      (case parseHeader l of Inl err \<Rightarrow> False | Inr (name, val) \<Rightarrow> isToken name))"

definition malformedLine :: "string \<Rightarrow> bool" where
  "malformedLine l =
     (l \<noteq> [] \<and> Index l rn = None \<and>
      (case parseHeader l of Inl err \<Rightarrow> True | Inr (name, val) \<Rightarrow> \<not> isToken name))"

definition lineError :: "string \<Rightarrow> error" where
  "lineError l = (case parseHeader l of Inl err \<Rightarrow> err | Inr (name, val) \<Rightarrow> MalformedHeaderName)"

definition storeLine :: "(string \<Rightarrow> string) \<Rightarrow> Headers \<Rightarrow> string \<Rightarrow> Headers" where
  "storeLine U h l = (case parseHeader l of Inl err \<Rightarrow> h | Inr (name, val) \<Rightarrow> Set U h name val)"

lemma Index_line:
  "Index l rn = None \<Longrightarrow> Index (l @ rn @ rest) rn = Some (length l)"
proof (induction l)
  case Nil
  then show ?case by (simp add: rn_def HasPrefix_def)
next
  case (Cons c cs)
  from Cons.prems have np: "\<not> HasPrefix (c # cs) rn" and none: "Index cs rn = None"
    by (auto split: if_splits)
  have "\<not> HasPrefix ((c # cs) @ rn @ rest) rn"
  proof (cases cs)
    case Nil
    then show ?thesis by (simp add: HasPrefix_def rn_def CR_def LF_def)
  next
    case (Cons d ds)
    with np show ?thesis by (simp add: HasPrefix_def rn_def)
  qed
  with Cons.IH [OF none] show ?case by simp
qed

lemma nextLine_wellFormed:
  assumes "wellFormedLine l"
  shows "\<exists>name val. parseHeader l = Inr (name, val) \<and> isToken name \<and>
           nextLine (l @ rn @ rest) = Field (length l) name val"
proof -
  from assms have "Index (l @ rn @ rest) rn = Some (length l)" "l \<noteq> []"
    by (simp_all add: wellFormedLine_def Index_line)
  with assms show ?thesis
    by (auto simp: nextLine_def wellFormedLine_def split: sum.splits)
qed

lemma nextLine_malformed:
  assumes "malformedLine l"
  shows "nextLine (l @ rn @ rest) = Bad (lineError l)"
proof -
  from assms have "Index (l @ rn @ rest) rn = Some (length l)" "l \<noteq> []"
    by (simp_all add: malformedLine_def Index_line)
  with assms show ?thesis
    by (auto simp: nextLine_def malformedLine_def lineError_def split: sum.splits)
qed

lemma Parse_wellFormed_line:
  assumes "wellFormedLine l"
  shows "Parse U h (l @ rn @ rest) =
     (case Parse U (storeLine U h l) rest of
        (h', n, d, e) \<Rightarrow> (h', if e = None then n + (length l + 2) else n, d, e))"
proof -
  from nextLine_wellFormed [OF assms, of rest]
  obtain name val where l: "parseHeader l = Inr (name, val)"
    and f: "nextLine (l @ rn @ rest) = Field (length l) name val"
    by blast
  have "Parse U h (l @ rn @ rest) =
      Parse_loop U (Set U h name val) (l @ rn @ rest) (length l + 2)"
    using f by (simp add: Parse_def Parse_loop_line [of U h "l @ rn @ rest" 0])
  also have "\<dots> =
     (case Parse_loop U (Set U h name val) (drop (length l + 2) (l @ rn @ rest)) (length l + 2 - (length l + 2)) of
        (h', n, d, e) \<Rightarrow> (h', if e = None then n + (length l + 2) else n, d, e))"
    by (rule Parse_loop_shift) simp
  finally show ?thesis
    using l by (simp add: Parse_def storeLine_def rn_def)
qed

lemma Parse_stops_at_malformed_line:
  assumes "list_all wellFormedLine lines" and "malformedLine bad"
  shows "Parse U h (concat (map (\<lambda>l. l @ rn) lines) @ bad @ rn @ rest) =
     (foldl (storeLine U) h lines, 0, False, Some (lineError bad))"
  using assms(1)
proof (induction lines arbitrary: h)
  case Nil
  from nextLine_malformed [OF assms(2), of rest] show ?case
    by (simp add: Parse_def Parse_loop_line [of U h "bad @ rn @ rest" 0])
next
  case (Cons l ls)
  then have l: "wellFormedLine l" and ls: "list_all wellFormedLine ls"
    by simp_all
  from Parse_wellFormed_line [OF l, of U h "concat (map (\<lambda>l. l @ rn) ls) @ bad @ rn @ rest"]
    Cons.IH [OF ls, of "storeLine U h l"]
  show ?case by simp
qed

text \<open>Storing never removes anything: the value under every name stays or grows.\<close>

definition weight :: "Headers \<Rightarrow> string \<Rightarrow> nat" where
  "weight h k = (case h k of None \<Rightarrow> 0 | Some v \<Rightarrow> Suc (length v))"

lemma weight_Set: "weight h k \<le> weight (Set U h name val) k"
  by (simp add: weight_def Set_def Let_def split: option.splits)

lemma weight_Set_name: "weight h (ToLower U name) < weight (Set U h name val) (ToLower U name)"
  by (simp add: weight_def Set_def Let_def split: option.splits)

lemma weight_storeLine: "weight h k \<le> weight (storeLine U h l) k"
  by (simp add: storeLine_def weight_Set split: sum.splits prod.splits)

lemma weight_foldl_storeLine: "weight h k \<le> weight (foldl (storeLine U) h lines) k"
proof (induction lines arbitrary: h)
  case Nil
  then show ?case by simp
next
  case (Cons l ls)
  have "weight h k \<le> weight (storeLine U h l) k"
    by (rule weight_storeLine)
  also have "\<dots> \<le> weight (foldl (storeLine U) (storeLine U h l) ls) k"
    by (rule Cons.IH)
  finally show ?case by simp
qed

lemma foldl_storeLine_changes:
  assumes "list_all wellFormedLine lines" and "lines \<noteq> []"
  shows "foldl (storeLine U) h lines \<noteq> h"
proof -
  from assms(2) obtain l ls where lines: "lines = l # ls"
    by (cases lines) auto
  with assms(1) have "wellFormedLine l" by simp
  then obtain name val where l: "parseHeader l = Inr (name, val)"
    by (auto simp: wellFormedLine_def split: sum.splits)
  have "weight h (ToLower U name) < weight (storeLine U h l) (ToLower U name)"
    using l by (simp add: storeLine_def weight_Set_name)
  also have "\<dots> \<le> weight (foldl (storeLine U) (storeLine U h l) ls) (ToLower U name)"
    by (rule weight_foldl_storeLine)
  finally have "weight h (ToLower U name) < weight (foldl (storeLine U) h lines) (ToLower U name)"
    using lines by simp
  then show ?thesis by auto
qed

lemma foldl_storeLine_dom:
  assumes "list_all wellFormedLine lines" and "l \<in> set lines"
    and "parseHeader l = Inr (name, val)"
  shows "ToLower U name \<in> dom (foldl (storeLine U) h lines)"
proof -
  from assms(2) obtain xs ys where lines: "lines = xs @ l # ys"
    by (auto simp: in_set_conv_decomp)
  let ?h = "foldl (storeLine U) h xs"
  have "0 < weight (storeLine U ?h l) (ToLower U name)"
    using assms(3) weight_Set_name [of ?h U name val] by (simp add: storeLine_def)
  also have "\<dots> \<le> weight (foldl (storeLine U) (storeLine U ?h l) ys) (ToLower U name)"
    by (rule weight_foldl_storeLine)
  finally have "0 < weight (foldl (storeLine U) h lines) (ToLower U name)"
    using lines by simp
  then show ?thesis
    by (auto simp: weight_def split: option.splits)
qed




subsection \<open>What one call of \<^verbatim>\<open>parse\<close> consumes\<close>















section \<open>The claims\<close>

text \<open>
  C6. Parsing the complete input \<^verbatim>\<open>"GET /a HTTP/1.1\r\nHost: x\r\n\r\n"\<close> in one call
  of \<^verbatim>\<open>parse\<close> on a new request consumes all 28 bytes without error and leaves a request
  with method \<open>GET\<close>, target \<open>/a\<close>, version \<open>1.1\<close>, a header store whose only entry maps
  \<open>host\<close> to \<open>x\<close>, an empty body and the state \<open>Done\<close>.
\<close>

theorem C6_get_with_host_header:
  "parse U newRequest (''GET /a HTTP/1.1'' @ [CR, LF] @ ''Host: x'' @ [CR, LF, CR, LF]) =
     Inr (\<lparr>RequestLine = \<lparr>HttpVersion = ''1.1'', RequestTarget = ''/a'', Method = ''GET'',
                           RequestLineBody = []\<rparr>,
           Headers = [''host'' \<mapsto> ''x''], Body = [], state = StateDone\<rparr>, 28, None)"
  by (simp add: run_bytes run_headers run_request)

text \<open>
  C3. The claim: a request line of three tokens whose version is not \<open>HTTP/1.1\<close> fails
  with the unsupported-version error, which is not the malformed-request-line error.
  What the code does on \<^verbatim>\<open>"GET /a HTTP/2.0\r\n\r\n"\<close>: \<^verbatim>\<open>parseRequestLine\<close> returns the
  malformed-request-line error (\<open>ERROR_UNSUPPORTED_HTTP_VERSION\<close> is declared and never
  returned), and \<^verbatim>\<open>parse\<close> drops even that: it moves the request to the state \<open>Error\<close>,
  stores no header, and returns the count 0 with no error.
\<close>

theorem C3_unsupported_version_is_reported_as_malformed:
  "parseRequestLine (''GET /a HTTP/2.0'' @ [CR, LF, CR, LF]) = Inl ERROR_MALFORMED_REQUEST_LINE \<and>
   parseRequestLine (''GET /a HTTP/2.0'' @ [CR, LF, CR, LF]) \<noteq> Inl ERROR_UNSUPPORTED_HTTP_VERSION \<and>
   parse U newRequest (''GET /a HTTP/2.0'' @ [CR, LF, CR, LF]) =
     Inr (newRequest\<lparr>state := StateError\<rparr>, 0, None) \<and>
   Headers (newRequest\<lparr>state := StateError\<rparr>) = Map.empty"
  by (simp add: run_bytes run_headers run_request)

theorem C3_unsupported_version_is_reported_as_malformed_witness:
  "parseRequestLine (''GET /a HTTP/2.0'' @ [CR, LF, CR, LF]) = Inl ERROR_MALFORMED_REQUEST_LINE \<and>
   parseRequestLine (''GET /a HTTP/2.0'' @ [CR, LF, CR, LF]) \<noteq> Inl ERROR_UNSUPPORTED_HTTP_VERSION \<and>
   parse (\<lambda>s. s) newRequest (''GET /a HTTP/2.0'' @ [CR, LF, CR, LF]) =
     Inr (newRequest\<lparr>state := StateError\<rparr>, 0, None) \<and>
   Headers (newRequest\<lparr>state := StateError\<rparr>) = Map.empty"
  by (rule C3_unsupported_version_is_reported_as_malformed)

text \<open>
  C1. The claim: when the content of the stream puts the parser into the state \<open>Error\<close>,
  \<^verbatim>\<open>RequestFromReader\<close> returns an error. What the code does on a stream that delivers
  \<^verbatim>\<open>"GET /a\r\n"\<close> (a request line of two tokens): \<^verbatim>\<open>parse\<close> sets the state \<open>Error\<close> and
  returns \<open>(0, nil)\<close>, the loop ends because \<^verbatim>\<open>done\<close> holds in the state \<open>Error\<close>, and
  the caller gets the request, in the state \<open>Error\<close>, with no error.
\<close>

theorem C1_malformed_request_line_returns_no_error:
  "RequestFromReader (Suc fuel) U [Data (''GET /a'' @ [CR, LF])] =
     Some (Ok (newRequest\<lparr>state := StateError\<rparr>))"
proof -
  have "parse U newRequest ([] @ ''GET /a'' @ [CR, LF]) = Inr (newRequest\<lparr>state := StateError\<rparr>, 0, None)"
    by (simp add: run_bytes run_headers run_request)
  moreover have "\<not> request_done newRequest"
    by (simp add: request_done_def newRequest_def)
  moreover have "request_done (newRequest\<lparr>state := StateError\<rparr>)"
    by (simp add: request_done_def)
  ultimately show ?thesis
    by (cases fuel) (simp_all add: RequestFromReader_def)
qed

text \<open>
  C10. The panic of the body state for a content length of 0 ("Chuncked not
  implemented") cannot happen, whatever the fragments a new request is fed and whatever
  the stream \<^verbatim>\<open>RequestFromReader\<close> reads. The reasons, as the claim gives them: a request
  that the parser has brought into the body state has a content length greater than 0
  in its store; a pass of the loop enters the body state only from the header state and
  only with such a content length; and a call of \<^verbatim>\<open>parse\<close> in the body state or in the
  state \<open>Done\<close> leaves the header store as it is.
\<close>

theorem C10_chunked_panic_unreachable:
  "feed U newRequest [] fragments \<noteq> Panicked ChunckedNotImplemented \<and>
   RequestFromReader fuel U reader \<noteq> Some (Panicked ChunckedNotImplemented) \<and>
   (feed U newRequest [] fragments = Ok (r, buf) \<and> state r = StateBody \<longrightarrow>
      0 < getInt U (Headers r) ''content-length'' 0) \<and>
   (parse_step U q data read = Next q' read' \<and> state q \<noteq> StateBody \<and> state q' = StateBody \<longrightarrow>
      state q = StateHeader \<and> 0 < getInt U (Headers q') ''content-length'' 0) \<and>
   ((state p = StateBody \<or> state p = StateDone) \<and> parse U p bytes = Inr (p', n, e) \<longrightarrow>
      Headers p' = Headers p)"
proof (intro conjI impI)
  show "feed U newRequest [] fragments \<noteq> Panicked ChunckedNotImplemented"
    using feed_sound [OF sound_newRequest] by blast
  show "RequestFromReader fuel U reader \<noteq> Some (Panicked ChunckedNotImplemented)"
    unfolding RequestFromReader_def
    using RequestFromReader_loop_sound [OF sound_newRequest] by blast
next
  assume a: "feed U newRequest [] fragments = Ok (r, buf) \<and> state r = StateBody"
  with feed_sound [OF sound_newRequest, of U "[]" fragments] have "sound U r"
    by blast
  with a have "int (length (Body r)) < getInt U (Headers r) ''content-length'' 0"
    by (simp add: sound.simps contentLength_def)
  then show "0 < getInt U (Headers r) ''content-length'' 0"
    by linarith
next
  assume a: "parse_step U q data read = Next q' read' \<and> state q \<noteq> StateBody \<and> state q' = StateBody"
  then have "state q = StateHeader \<and> 0 < getInt U (Headers q') ''content-length'' 0"
    using parse_step_enters_body [of U q data read q' read'] by simp
  then show "state q = StateHeader" and "0 < getInt U (Headers q') ''content-length'' 0"
    by simp_all
next
  assume "(state p = StateBody \<or> state p = StateDone) \<and> parse U p bytes = Inr (p', n, e)"
  then show "Headers p' = Headers p"
    using parse_loop_keeps_headers [of p U bytes 0 p' n e] by (simp add: parse_def)
qed

theorem C10_chunked_panic_unreachable_witness:
  "feed (\<lambda>s. s) newRequest [] [''POST /a HTTP/1.1'' @ [CR, LF] @ ''Content-Length: 5'' @ [CR, LF, CR, LF]] =
     Ok (\<lparr>RequestLine = \<lparr>HttpVersion = ''1.1'', RequestTarget = ''/a'', Method = ''POST'', RequestLineBody = []\<rparr>,
          Headers = [''content-length'' \<mapsto> ''5''], Body = [], state = StateBody\<rparr>, []) \<and>
   0 < getInt (\<lambda>s. s) [''content-length'' \<mapsto> ''5''] ''content-length'' 0 \<and>
   parse_step (\<lambda>s. s) (newRequest\<lparr>state := StateHeader\<rparr>) (''Content-Length: 5'' @ [CR, LF, CR, LF]) 0 =
     Next (newRequest\<lparr>Headers := [''content-length'' \<mapsto> ''5''], state := StateBody\<rparr>) 21 \<and>
   parse (\<lambda>s. s) (newRequest\<lparr>Headers := [''content-length'' \<mapsto> ''5''], state := StateBody\<rparr>) ''he'' =
     Inr (newRequest\<lparr>Headers := [''content-length'' \<mapsto> ''5''], Body := ''he'', state := StateBody\<rparr>, 2, None) \<and>
   Headers (newRequest\<lparr>Headers := [''content-length'' \<mapsto> ''5''], Body := ''he'', state := StateBody\<rparr>) =
     [''content-length'' \<mapsto> ''5'']"
proof -
  let ?U = "\<lambda>s :: string. s"
  let ?head = "''POST /a HTTP/1.1'' @ [CR, LF] @ ''Content-Length: 5'' @ [CR, LF, CR, LF]"
  let ?r = "\<lparr>RequestLine = \<lparr>HttpVersion = ''1.1'', RequestTarget = ''/a'', Method = ''POST'', RequestLineBody = []\<rparr>,
          Headers = [''content-length'' \<mapsto> ''5''], Body = [], state = StateBody\<rparr>"
  let ?q = "newRequest\<lparr>state := StateHeader\<rparr>"
  let ?q' = "newRequest\<lparr>Headers := [''content-length'' \<mapsto> ''5''], state := StateBody\<rparr>"
  let ?q'' = "newRequest\<lparr>Headers := [''content-length'' \<mapsto> ''5''], Body := ''he'', state := StateBody\<rparr>"
  have f: "feed ?U newRequest [] [?head] = Ok (?r, [])"
    by (simp add: run_bytes run_headers run_request)
  have s: "parse_step ?U ?q (''Content-Length: 5'' @ [CR, LF, CR, LF]) 0 = Next ?q' 21"
    by (simp add: run_bytes run_headers run_request)
  have p: "parse ?U ?q' ''he'' = Inr (?q'', 2, None)"
    by (simp add: run_bytes run_headers run_request)
  have "state ?q' = StateBody" "state ?q \<noteq> StateBody" "state ?r = StateBody"
    by (simp_all add: newRequest_def)
  with f s p
    C10_chunked_panic_unreachable [where U = ?U and fragments = "[?head]" and r = ?r and buf = "[]"
      and q = ?q and data = "''Content-Length: 5'' @ [CR, LF, CR, LF]" and read = 0 and q' = ?q'
      and read' = 21 and p = ?q' and bytes = "''he''" and p' = ?q'' and n = 2 and e = None]
  show ?thesis
    by (simp add: newRequest_def)
qed



text \<open>
  C7. Two names differ only in letter case when \<^verbatim>\<open>strings.ToLower\<close> gives the same string
  for both (for names of ASCII bytes: when they agree byte by byte up to the case of
  letters, \<open>ToLower_ASCII_case\<close>). For such names and all values \<open>a\<close> and \<open>b\<close>, on a new
  header store: after \<open>Set name a\<close>, \<open>Get name'\<close> returns \<open>a\<close> and \<open>true\<close>; after
  \<open>Set name a\<close> and \<open>Set name' b\<close>, \<open>Get name\<close> returns \<open>a\<close>, a comma and \<open>b\<close>, with nothing
  added and nothing escaped, and \<open>true\<close>.
\<close>

theorem C7_set_get_fold_case_and_join:
  assumes "ToLower U name = ToLower U name'"
  shows "Get U (Set U NewHeaders name a) name' = (a, True) \<and>
         Get U (Set U (Set U NewHeaders name a) name' b) name = (a @ '','' @ b, True)"
proof
  show "Get U (Set U NewHeaders name a) name' = (a, True)"
    using assms by (simp add: Get_Set_fresh NewHeaders_def)
next
  have "Set U NewHeaders name a (ToLower U name') = Some a"
    using assms Set_lookup [of U NewHeaders name a] by (simp add: NewHeaders_def)
  then show "Get U (Set U (Set U NewHeaders name a) name' b) name = (a @ '','' @ b, True)"
    using assms Get_Set_present [of U name' name "Set U NewHeaders name a" a b] by simp
qed

theorem C7_set_get_fold_case_and_join_witness:
  "ToLower (\<lambda>s. s) ''Content-Type'' = ToLower (\<lambda>s. s) ''content-type'' \<and>
   Get (\<lambda>s. s) (Set (\<lambda>s. s) NewHeaders ''Content-Type'' ''a'') ''content-type'' = (''a'', True) \<and>
   Get (\<lambda>s. s) (Set (\<lambda>s. s) (Set (\<lambda>s. s) NewHeaders ''Content-Type'' ''a'') ''content-type'' ''b'')
     ''Content-Type'' = (''a,b'', True)"
proof -
  have same: "ToLower (\<lambda>s. s) ''Content-Type'' = ToLower (\<lambda>s. s) ''content-type''"
    by (simp add: ToLower_def isASCII_def lowerByte_Char)
  from C7_set_get_fold_case_and_join [OF same, of "''a''" "''b''"] same show ?thesis
    by simp
qed

text \<open>
  C9. One call of \<^verbatim>\<open>Headers.Parse\<close> on a buffer that holds one or more well-formed
  lines, each with its CRLF, then a malformed line with its CRLF (and anything after
  it) returns the error of the malformed line with the count 0 and \<open>done\<close> false; yet
  the store it leaves is the one in which every well-formed line has been stored, in
  order: it is not the store the call started with, and it holds the name of each of
  these lines.
\<close>

theorem C9_parse_error_is_not_atomic:
  assumes "lines \<noteq> []" and "list_all wellFormedLine lines" and "malformedLine bad"
  shows "Parse U h (concat (map (\<lambda>l. l @ rn) lines) @ bad @ rn @ rest) =
           (foldl (storeLine U) h lines, 0, False, Some (lineError bad)) \<and>
         foldl (storeLine U) h lines \<noteq> h \<and>
         (\<forall>l \<in> set lines. \<exists>name val. parseHeader l = Inr (name, val) \<and>
            snd (Get U (foldl (storeLine U) h lines) name))"
proof (intro conjI ballI)
  show "Parse U h (concat (map (\<lambda>l. l @ rn) lines) @ bad @ rn @ rest) =
      (foldl (storeLine U) h lines, 0, False, Some (lineError bad))"
    using assms(2,3) by (rule Parse_stops_at_malformed_line)
  show "foldl (storeLine U) h lines \<noteq> h"
    using assms(2,1) by (rule foldl_storeLine_changes)
next
  fix l assume l: "l \<in> set lines"
  with assms(2) have "wellFormedLine l"
    by (simp add: list_all_iff)
  then obtain name val where p: "parseHeader l = Inr (name, val)"
    by (auto simp: wellFormedLine_def split: sum.splits)
  from foldl_storeLine_dom [OF assms(2) l p, of U h]
  have "snd (Get U (foldl (storeLine U) h lines) name)"
    by (auto simp: Get_def)
  with p show "\<exists>name val. parseHeader l = Inr (name, val) \<and>
      snd (Get U (foldl (storeLine U) h lines) name)"
    by blast
qed

theorem C9_parse_error_is_not_atomic_witness:
  "[''Host: x''] \<noteq> [] \<and> list_all wellFormedLine [''Host: x''] \<and> malformedLine ''no colon here'' \<and>
   Parse (\<lambda>s. s) NewHeaders (''Host: x'' @ [CR, LF] @ ''no colon here'' @ [CR, LF] @ ''A: b'') =
     ([''host'' \<mapsto> ''x''], 0, False, Some MalformedHeaderLine) \<and>
   [''host'' \<mapsto> ''x''] \<noteq> NewHeaders \<and>
   Get (\<lambda>s. s) [''host'' \<mapsto> ''x''] ''Host'' = (''x'', True)"
proof -
  have wf: "list_all wellFormedLine [''Host: x'']"
    by (simp add: wellFormedLine_def run_bytes run_headers)
  have mf: "malformedLine ''no colon here''"
    by (simp add: malformedLine_def run_bytes run_headers)
  have st: "storeLine (\<lambda>s. s) NewHeaders ''Host: x'' = [''host'' \<mapsto> ''x'']"
    by (simp add: storeLine_def run_bytes run_headers)
  have er: "lineError ''no colon here'' = MalformedHeaderLine"
    by (simp add: lineError_def run_bytes run_headers)
  have g: "Get (\<lambda>s. s) [''host'' \<mapsto> ''x''] ''Host'' = (''x'', True)"
    by (simp add: run_bytes run_headers)
  from C9_parse_error_is_not_atomic [OF _ wf mf, of "\<lambda>s. s" NewHeaders "''A: b''"] wf mf g
  show ?thesis
    by (simp add: st er rn_def)
qed







end
